theory Spec2Isabelle
  imports Main "HOL-Library.Sublist"
begin

section \<open>Values shared by the model\<close>

text \<open>
  Byte strings (\<open>bytes\<close>) and decoded text (\<open>str\<close>) are both lists of 8-bit characters.
  The exceptions the modelled code can raise are values of \<open>error\<close>.
\<close>

datatype error =
    ZeroDivisionError
  | ValueError
  | IndexError
  | NameError
  | AttributeError
  | FileNotFoundError
  | UnicodeDecodeError
  | UnicodeEncodeError
  | RegexError

abbreviation CR :: char where "CR \<equiv> CHR 0x0D"
abbreviation LF :: char where "LF \<equiv> CHR 0x0A"

text \<open>
  A generator is the finite trace of what it does when pulled: it yields a value and
  goes on, it ends, or it raises. A consumer that stops early never reaches the rest.
\<close>

datatype 'a gen = Done | Raise error | Yield 'a "'a gen"

fun yield_from :: "'a list \<Rightarrow> 'a gen \<Rightarrow> 'a gen" where
  "yield_from [] g = g"
| "yield_from (x # xs) g = Yield x (yield_from xs g)"

definition gen_of_list :: "'a list \<Rightarrow> 'a gen" where
  "gen_of_list xs = yield_from xs Done"

section \<open>Library operations on byte strings\<close>

text \<open>
  \<open>bytes.splitlines(keepends)\<close>: lines end at LF, CR or CRLF (CRLF taken as one
  terminator); no empty line is reported after a final terminator.
\<close>

fun splitlines :: "bool \<Rightarrow> string \<Rightarrow> string list" where
  "splitlines keepends [] = []"
| "splitlines keepends (c # cs) =
     (if c = LF then (if keepends then [LF] else []) # splitlines keepends cs
      else if c = CR then
        (case cs of
           [] \<Rightarrow> [if keepends then [CR] else []]
         | d # ds \<Rightarrow>
             if d = LF then (if keepends then [CR, LF] else []) # splitlines keepends ds
             else (if keepends then [CR] else []) # splitlines keepends cs)
      else (case splitlines keepends cs of
              [] \<Rightarrow> [[c]]
            | l # ls \<Rightarrow> (c # l) # ls))"

text \<open>
  \<open>bytes.split(sep)\<close> for a non-empty separator: cut at every occurrence, scanning from
  the left, occurrences not overlapping. (The empty separator raises; see \<open>split\<close>.)
\<close>

fun bytes_split :: "string \<Rightarrow> string \<Rightarrow> string list" where
  "bytes_split sep [] = [[]]"
| "bytes_split sep (c # cs) =
     (if sep \<noteq> [] \<and> prefix sep (c # cs)
      then [] # bytes_split sep (drop (length sep - 1) cs)
      else (case bytes_split sep cs of
              [] \<Rightarrow> [[c]]
            | l # ls \<Rightarrow> (c # l) # ls))"

text \<open>\<open>startswith\<close> and \<open>endswith\<close> with a tuple of candidates.\<close>

definition startswith :: "string \<Rightarrow> string list \<Rightarrow> bool" where
  "startswith b seps = list_ex (\<lambda>s. prefix s b) seps"

definition endswith :: "string \<Rightarrow> string list \<Rightarrow> bool" where
  "endswith b seps = list_ex (\<lambda>s. suffix s b) seps"

section \<open>The reverse line stream (FileUtils.Reverse\_File\_Reader)\<close>

subsection \<open>Inner helpers\<close>

definition ceil_division :: "int \<Rightarrow> int \<Rightarrow> error + int" where
  "ceil_division left_number right_number =
     (if right_number = 0 then Inl ZeroDivisionError
      else Inr (- ((- left_number) div right_number)))"

definition split :: "string \<Rightarrow> string \<Rightarrow> bool \<Rightarrow> error + string list" where
  "split string separator keep_separator =
     (if separator = [] then Inl ValueError
      else
        let parts = bytes_split separator string in
        if keep_separator then
          (if parts = [] then Inl ValueError
           else
             let last_part = last parts;
                 parts' = map (\<lambda>part. part @ separator) (butlast parts)
             in if last_part \<noteq> [] then Inr (parts' @ [last_part]) else Inr parts')
        else Inr parts)"

text \<open>
  \<open>read_batch_from_end\<close>: seek to the offset, read \<open>size\<close> bytes. Every call made by
  the stream has a positive size and a positive end position: a window size of 0 raises
  before any read, and a negative one makes \<open>islice\<close> raise or leaves no position at all.
\<close>

definition read_batch_from_end :: "string \<Rightarrow> int \<Rightarrow> int \<Rightarrow> string" where
  "read_batch_from_end byte_stream size' end_position =
     (if end_position > size'
      then take (nat size') (drop (nat (end_position - size')) byte_stream)
      else take (nat end_position) (drop 0 byte_stream))"

text \<open>
  \<open>itertools.accumulate(chain([stream_size], repeat(batch_size)), sub)\<close> cut by
  \<open>islice\<close> to \<open>batches_count\<close> items: the end positions of the windows, last first.
\<close>

fun accumulate_sub :: "int \<Rightarrow> int \<Rightarrow> nat \<Rightarrow> int list" where
  "accumulate_sub cur step 0 = []"
| "accumulate_sub cur step (Suc n) = cur # accumulate_sub (cur - step) step n"

definition remaining_bytes_indicator :: "int \<Rightarrow> int \<Rightarrow> int \<Rightarrow> error + int list" where
  "remaining_bytes_indicator stream_size batch_size batches_count =
     (if batches_count < 0 then Inl ValueError
      else Inr (accumulate_sub stream_size batch_size (nat batches_count)))"

text \<open>
  The separators tested by \<open>startswith\<close>/\<open>endswith\<close>, and the splitter, chosen from the
  \<open>lines_separator\<close> argument (\<open>None\<close>: the implicit set CR, LF, CRLF).
\<close>

definition separators :: "string option \<Rightarrow> string list" where
  "separators lines_separator =
     (case lines_separator of None \<Rightarrow> [[CR], [LF], [CR, LF]] | Some s \<Rightarrow> [s])"

definition lines_splitter :: "string option \<Rightarrow> bool \<Rightarrow> string \<Rightarrow> error + string list" where
  "lines_splitter lines_separator keep_lines_separator batch =
     (case lines_separator of
        None \<Rightarrow> Inr (splitlines keep_lines_separator batch)
      | Some s \<Rightarrow> split batch s keep_lines_separator)"

text \<open>
  \<open>read_batch\<close>: the window ending at \<open>position\<close>; while the buffer starts with a
  separator, the next end position is taken from the shared iterator and that window is
  put in front. The iterator (the list of positions not yet used) is returned with the
  buffer.
\<close>

fun read_batch_while ::
  "string \<Rightarrow> int \<Rightarrow> string list \<Rightarrow> string \<Rightarrow> int list \<Rightarrow> string \<times> int list" where
  "read_batch_while byte_stream batch_size seps result [] = (result, [])"
| "read_batch_while byte_stream batch_size seps result (position # ind) =
     (if startswith result seps
      then read_batch_while byte_stream batch_size seps
             (read_batch_from_end byte_stream batch_size position @ result) ind
      else (result, position # ind))"

definition read_batch ::
  "string \<Rightarrow> int \<Rightarrow> string list \<Rightarrow> int \<Rightarrow> int list \<Rightarrow> string \<times> int list" where
  "read_batch byte_stream batch_size seps position ind =
     read_batch_while byte_stream batch_size seps
       (read_batch_from_end byte_stream batch_size position) ind"


subsection \<open>reverse\_binary\_stream\<close>

text \<open>
  The \<open>for\<close> loop over the remaining positions, and the final \<open>yield segment\<close>.
  Unpacking an empty list raises ValueError, \<open>lines[-1]\<close> of an empty list IndexError.
\<close>

function batches_loop ::
  "string \<Rightarrow> int \<Rightarrow> string option \<Rightarrow> bool \<Rightarrow> string \<Rightarrow> int list \<Rightarrow> string gen" where
  "batches_loop byte_stream batch_size lines_separator keep segment [] = Yield segment Done"
| "batches_loop byte_stream batch_size lines_separator keep segment (remaining_bytes_count # ind) =
     (let r = read_batch byte_stream batch_size (separators lines_separator)
                remaining_bytes_count ind;
          batch = fst r; ind' = snd r
      in case lines_splitter lines_separator keep batch of
           Inl e \<Rightarrow> Raise e
         | Inr lines \<Rightarrow>
             if endswith batch (separators lines_separator) then
               Yield segment
                 (case lines of
                    [] \<Rightarrow> Raise ValueError
                  | segment' # lines' \<Rightarrow>
                      yield_from (rev lines')
                        (batches_loop byte_stream batch_size lines_separator keep segment' ind'))
             else
               (case lines of
                  [] \<Rightarrow> Raise IndexError
                | _ # _ \<Rightarrow>
                    (case butlast lines @ [last lines @ segment] of
                       [] \<Rightarrow> Raise ValueError
                     | segment' # lines' \<Rightarrow>
                         yield_from (rev lines')
                           (batches_loop byte_stream batch_size lines_separator keep segment' ind'))))"
  by pat_completeness auto
termination
proof -
  have shorter: "length (snd (read_batch_while s b seps r ind)) \<le> length ind"
    for s b seps r ind
    by (induction ind arbitrary: r) (auto intro: le_SucI)
  show ?thesis
    by (relation "measure (\<lambda>(byte_stream, batch_size, lines_separator, keep, segment, ind). length ind)")
       (auto simp: read_batch_def less_Suc_eq_le shorter)
qed

definition reverse_binary_stream ::
  "string \<Rightarrow> int option \<Rightarrow> string option \<Rightarrow> bool \<Rightarrow> string gen" where
  "reverse_binary_stream byte_stream batch_size lines_separator keep_lines_separator =
     (let stream_size = int (length byte_stream);
          batch_size' = (case batch_size of
                           None \<Rightarrow> (if stream_size \<noteq> 0 then stream_size else 1)
                         | Some b \<Rightarrow> b)
      in case ceil_division stream_size batch_size' of
           Inl e \<Rightarrow> Raise e
         | Inr batches_count \<Rightarrow>
             (case remaining_bytes_indicator stream_size batch_size' batches_count of
                Inl e \<Rightarrow> Raise e
              | Inr [] \<Rightarrow> Done
              | Inr (remaining_bytes_count # ind) \<Rightarrow>
                  (let r = read_batch byte_stream batch_size' (separators lines_separator)
                             remaining_bytes_count ind;
                       batch = fst r; ind' = snd r
                   in (case lines_splitter lines_separator keep_lines_separator batch of
                         Inl e \<Rightarrow> Raise e
                       | Inr [] \<Rightarrow> Raise ValueError
                       | Inr (segment # lines) \<Rightarrow>
                           yield_from (rev lines)
                             (batches_loop byte_stream batch_size' lines_separator
                                keep_lines_separator segment ind')))))"

subsection \<open>Text files, codecs and the outer generator\<close>

text \<open>
  An encoding is the pair of functions its name stands for. \<open>ascii\<close> is Python's codec of
  that name; on a file of 7-bit bytes \<open>utf-8\<close> agrees with it.
\<close>

record codec =
  decode :: "string \<Rightarrow> error + string"
  encode :: "string \<Rightarrow> error + string"

definition ascii :: codec where
  "ascii =
     \<lparr> decode = (\<lambda>b. if list_all (\<lambda>c. of_char c < (128::nat)) b then Inr b
                      else Inl UnicodeDecodeError),
       encode = (\<lambda>s. if list_all (\<lambda>c. of_char c < (128::nat)) s then Inr s
                      else Inl UnicodeEncodeError) \<rparr>"

text \<open>
  A text file object just opened for reading: its encoding and the bytes of its buffer.
\<close>

record file_object =
  encoding :: codec
  buffer :: string

text \<open>
  \<open>str.isspace\<close> on the code points below 256, and \<open>str.rstrip()\<close>.
\<close>

definition isspace :: "char \<Rightarrow> bool" where
  "isspace c =
     (let n = (of_char c :: nat)
      in (9 \<le> n \<and> n \<le> 13) \<or> (28 \<le> n \<and> n \<le> 32) \<or> n = 133 \<or> n = 160)"

definition rstrip :: "string \<Rightarrow> string" where
  "rstrip s = rev (dropWhile isspace (rev s))"

text \<open>
  Reading a text file forward (universal newlines): the content is decoded, cut after each
  LF, CR or CRLF, and each terminator is handed over as LF. The decoding is modelled as
  one step over the whole buffer.
\<close>

definition universal_newline :: "string \<Rightarrow> string" where
  "universal_newline line =
     (if suffix [CR, LF] line then butlast (butlast line) @ [LF]
      else if suffix [CR] line then butlast line @ [LF]
      else line)"

definition readlines :: "file_object \<Rightarrow> error + string list" where
  "readlines f =
     (case decode (encoding f) (buffer f) of
        Inl e \<Rightarrow> Inl e
      | Inr text \<Rightarrow> Inr (map universal_newline (splitlines True text)))"

definition iter_lines :: "file_object \<Rightarrow> string gen" where
  "iter_lines f = (case readlines f of Inl e \<Rightarrow> Raise e | Inr ls \<Rightarrow> gen_of_list ls)"

text \<open>\<open>map\<close> over a generator with a function that may raise, and with one that cannot.\<close>

fun map_decode :: "codec \<Rightarrow> string gen \<Rightarrow> string gen" where
  "map_decode enc Done = Done"
| "map_decode enc (Raise e) = Raise e"
| "map_decode enc (Yield b g) =
     (case decode enc b of Inl e \<Rightarrow> Raise e | Inr s \<Rightarrow> Yield s (map_decode enc g))"

fun map_gen :: "('a \<Rightarrow> 'b) \<Rightarrow> 'a gen \<Rightarrow> 'b gen" where
  "map_gen f Done = Done"
| "map_gen f (Raise e) = Raise e"
| "map_gen f (Yield x g) = Yield (f x) (map_gen f g)"

definition reverse_file ::
  "file_object \<Rightarrow> int option \<Rightarrow> string option \<Rightarrow> bool \<Rightarrow> string gen" where
  "reverse_file file batch_size lines_separator keep_lines_separator =
     (case lines_separator of
        None \<Rightarrow>
          map_decode (encoding file)
            (reverse_binary_stream (buffer file) batch_size None keep_lines_separator)
      | Some s \<Rightarrow>
          (case encode (encoding file) s of
             Inl e \<Rightarrow> Raise e
           | Inr sb \<Rightarrow>
               map_decode (encoding file)
                 (reverse_binary_stream (buffer file) batch_size (Some sb)
                    keep_lines_separator)))"

text \<open>
  \<open>Reverse_File_Reader\<close> of \<^verbatim>\<open>src/SpiderUtilLib/FileUtils.py\<close>: every line of the inner stream
  is stripped on the right and, when \<open>keep_lines_separator\<close> is set, ended with
  \<open>lines_separator\<close>.
\<close>

definition Reverse_File_Reader ::
  "file_object \<Rightarrow> string \<Rightarrow> bool \<Rightarrow> bool \<Rightarrow> string gen" where
  "Reverse_File_Reader file_object lines_separator keep_lines_separator save_memory =
     (let out = (\<lambda>line. if keep_lines_separator then rstrip line @ lines_separator
                           else rstrip line)
      in if save_memory then map_gen out (reverse_file file_object None None True)
         else (case readlines file_object of
                 Inl e \<Rightarrow> Raise e
               | Inr reversed_file \<Rightarrow> gen_of_list (map out (rev reversed_file))))"

text \<open>
  \<open>reverse_file_reader\<close> of \<^verbatim>\<open>src/src/SpiderUtilLib/FileUtils.py\<close> and
  \<^verbatim>\<open>src/src/SpiderUtilLib/SpiderUtilLib.py\<close>: the body starts with \<^verbatim>\<open>f = open(filename, 'w')\<close>,
  and \<open>filename\<close> is neither a parameter, a local, a global of these modules nor a
  builtin. The first pull evaluates the name and raises; nothing after it is reached.
\<close>

definition reverse_file_reader ::
  "file_object \<Rightarrow> string \<Rightarrow> bool \<Rightarrow> bool \<Rightarrow> string gen" where
  "reverse_file_reader file_object lines_separator keep_lines_separator save_memory =
     Raise NameError"

section \<open>Text search\<close>

text \<open>
  The module \<open>re\<close> is a parameter of the model: compiling a pattern may raise,
  \<open>re_search\<close> gives the \<open>group()\<close> of the first match when there is one, and \<open>re_sub\<close>
  is \<open>re.sub(pattern, repl, string)\<close>.
\<close>

record 'r re_module =
  re_compile :: "string \<Rightarrow> error + 'r"
  re_search :: "'r \<Rightarrow> string \<Rightarrow> string option"
  re_sub :: "'r \<Rightarrow> string \<Rightarrow> string \<Rightarrow> error + string"

text \<open>\<open>str.find(sub)\<close>: the lowest index where \<open>sub\<close> occurs, or -1.\<close>

fun str_find :: "string \<Rightarrow> string \<Rightarrow> int" where
  "str_find [] sub = (if sub = [] then 0 else - 1)"
| "str_find (c # cs) sub =
     (if prefix sub (c # cs) then 0
      else (let r = str_find cs sub in if r = - 1 then - 1 else r + 1))"

text \<open>
  The world the file operations act on: the files by path, the calls of \<open>open\<close> made so
  far (path and mode), and what \<open>print(e)\<close> has written.
\<close>

record world =
  files :: "string \<rightharpoonup> string"
  open_calls :: "(string \<times> char) list"
  printed :: "error list"

definition print :: "world \<Rightarrow> error \<Rightarrow> world" where
  "print w e = w\<lparr>printed := printed w @ [e]\<rparr>"

definition open_read :: "world \<Rightarrow> string \<Rightarrow> world \<times> (error + string)" where
  "open_read w path =
     (w\<lparr>open_calls := open_calls w @ [(path, CHR ''r'')]\<rparr>,
      case files w path of None \<Rightarrow> Inl FileNotFoundError | Some b \<Rightarrow> Inr b)"


text \<open>
  The body of the \<open>for\<close> loop of the search, on one line: the matches recorded so far
  with the new one, or the exception of \<open>re.compile\<close>.
\<close>

definition search_line ::
  "'r re_module \<Rightarrow> string \<Rightarrow> bool \<Rightarrow> string list \<Rightarrow> string \<Rightarrow> error + string list" where
  "search_line re search_for search_using_regex result line =
     (if \<not> search_using_regex then
        (if \<not> (str_find line search_for = - 1) then Inr (result @ [search_for])
         else Inr result)
      else
        (case re_compile re search_for of
           Inl e \<Rightarrow> Inl e
         | Inr search_for_re \<Rightarrow>
             (case re_search re search_for_re line of
                Some found \<Rightarrow> Inr (result @ [found])
              | None \<Rightarrow> Inr result)))"

text \<open>
  The loop itself. It returns what it has recorded, or the exception that ended it, and
  the part of the line source it has not pulled.
\<close>

fun search_loop ::
  "'r re_module \<Rightarrow> string \<Rightarrow> bool \<Rightarrow> int \<Rightarrow> string list \<Rightarrow> string gen
     \<Rightarrow> (error + string list) \<times> string gen" where
  "search_loop re search_for search_using_regex count result Done = (Inr result, Done)"
| "search_loop re search_for search_using_regex count result (Raise e) = (Inl e, Done)"
| "search_loop re search_for search_using_regex count result (Yield line g) =
     (case search_line re search_for search_using_regex result line of
        Inl e \<Rightarrow> (Inl e, g)
      | Inr result' \<Rightarrow>
          if 0 < count \<and> count = int (length result') then (Inr result', g)
          else search_loop re search_for search_using_regex count result' g)"

text \<open>
  The line source of the search: the file's own forward iteration, or the reverse reader
  called with \<open>save_memory=True\<close> and its defaults (\<open>lines_separator\<close> LF,
  \<open>keep_lines_separator=True\<close>).
\<close>

definition line_source ::
  "(file_object \<Rightarrow> string \<Rightarrow> bool \<Rightarrow> bool \<Rightarrow> string gen) \<Rightarrow> file_object \<Rightarrow> bool \<Rightarrow> string gen" where
  "line_source reverse_reader file_reader search_from_front_to_back =
     (if search_from_front_to_back then iter_lines file_reader
      else reverse_reader file_reader [LF] True True)"

text \<open>
  \<open>Text_File_Search_All\<close>, written once for the two reverse readers: the three copies in
  the repository differ only in the reverse reader they call.
\<close>

definition search_all_with ::
  "(file_object \<Rightarrow> string \<Rightarrow> bool \<Rightarrow> bool \<Rightarrow> string gen) \<Rightarrow> 'r re_module \<Rightarrow> world \<Rightarrow> string
     \<Rightarrow> string \<Rightarrow> codec \<Rightarrow> bool \<Rightarrow> bool \<Rightarrow> int \<Rightarrow> string list option \<times> world" where
  "search_all_with reverse_reader re w file search_for enc search_using_regex
     search_from_front_to_back count =
     (if search_for = [] then (None, w)
      else
        (case open_read w file of
           (w', Inl e) \<Rightarrow> (None, print w' e)
         | (w', Inr bytes) \<Rightarrow>
             (let file_reader = \<lparr>encoding = enc, buffer = bytes\<rparr>;
                  source = line_source reverse_reader file_reader search_from_front_to_back
              in (case fst (search_loop re search_for search_using_regex count [] source) of
                    Inl e \<Rightarrow> (None, print w' e)
                  | Inr result \<Rightarrow> (if result = [] then None else Some result, w')))))"

text \<open>
  \<open>Text_File_Search_All\<close> is the function of \<^verbatim>\<open>src/SpiderUtilLib/FileUtils.py\<close>;
  \<open>text_file_search_all\<close> is the one of \<^verbatim>\<open>src/src/SpiderUtilLib/FileUtils.py\<close> and
  \<^verbatim>\<open>src/src/SpiderUtilLib/SpiderUtilLib.py\<close>.
\<close>

definition Text_File_Search_All ::
  "'r re_module \<Rightarrow> world \<Rightarrow> string \<Rightarrow> string \<Rightarrow> codec \<Rightarrow> bool \<Rightarrow> bool \<Rightarrow> int
     \<Rightarrow> string list option \<times> world" where
  "Text_File_Search_All = search_all_with Reverse_File_Reader"

definition text_file_search_all ::
  "'r re_module \<Rightarrow> world \<Rightarrow> string \<Rightarrow> string \<Rightarrow> codec \<Rightarrow> bool \<Rightarrow> bool \<Rightarrow> int
     \<Rightarrow> string list option \<times> world" where
  "text_file_search_all = search_all_with reverse_file_reader"

section \<open>In-place replacement (text\_file\_cleanup of src/src/SpiderUtilLib/FileUtils.py)\<close>





section \<open>A fragment of the module re\<close>

text \<open>
  For the examples the parameter \<open>re\<close> is given a value: the patterns made of literal
  characters, \<^verbatim>\<open>\d\<close> and \<^verbatim>\<open>.\<close>, each optionally followed by one of \<^verbatim>\<open>+ * ?\<close>,
  matched as Python matches them (leftmost, greedy, with backtracking). A pattern or a
  replacement outside this fragment is answered with RegexError, also where Python
  accepts it; no theorem below depends on such an answer.
\<close>

datatype atom = AChar char | ADigit | AAny

datatype quant = Once | Plus | Star | Opt

definition is_digit :: "char \<Rightarrow> bool" where
  "is_digit c = (let n = (of_char c :: nat) in 48 \<le> n \<and> n \<le> 57)"

definition is_alnum :: "char \<Rightarrow> bool" where
  "is_alnum c =
     (let n = (of_char c :: nat)
      in (48 \<le> n \<and> n \<le> 57) \<or> (65 \<le> n \<and> n \<le> 90) \<or> (97 \<le> n \<and> n \<le> 122))"

fun atom_ok :: "atom \<Rightarrow> char \<Rightarrow> bool" where
  "atom_ok (AChar a) c = (a = c)"
| "atom_ok ADigit c = is_digit c"
| "atom_ok AAny c = (c \<noteq> LF)"

definition quant_of :: "char \<Rightarrow> quant option" where
  "quant_of c =
     (if c = CHR ''+'' then Some Plus else if c = CHR ''*'' then Some Star
      else if c = CHR ''?'' then Some Opt else None)"

text \<open>The atom at the head of a pattern, with the rest of the pattern.\<close>

definition parse_atom :: "string \<Rightarrow> (atom \<times> string) option" where
  "parse_atom p =
     (case p of
        [] \<Rightarrow> None
      | c # cs \<Rightarrow>
          if c = CHR 0x5C then
            (case cs of
               [] \<Rightarrow> None
             | d # ds \<Rightarrow>
                 if d = CHR ''d'' then Some (ADigit, ds)
                 else if is_alnum d then None
                 else Some (AChar d, ds))
          else if c = CHR ''.'' then Some (AAny, cs)
          else if c \<in> set ''+*?()[]{}|^$'' then None
          else Some (AChar c, cs))"

function parse_pattern :: "string \<Rightarrow> error + (atom \<times> quant) list" where
  "parse_pattern p =
     (if p = [] then Inr []
      else
        (case parse_atom p of
           None \<Rightarrow> Inl RegexError
         | Some (a, rest) \<Rightarrow>
             (case rest of
                [] \<Rightarrow> Inr [(a, Once)]
              | q # rest' \<Rightarrow>
                  (case quant_of q of
                     None \<Rightarrow>
                       (case parse_pattern rest of
                          Inl e \<Rightarrow> Inl e
                        | Inr items \<Rightarrow> Inr ((a, Once) # items))
                   | Some k \<Rightarrow>
                       if rest' \<noteq> [] \<and> quant_of (hd rest') \<noteq> None then Inl RegexError
                       else
                         (case parse_pattern rest' of
                            Inl e \<Rightarrow> Inl e
                          | Inr items \<Rightarrow> Inr ((a, k) # items))))))"
  by pat_completeness auto
termination
proof -
  have shorter: "parse_atom p = Some (a, rest) \<Longrightarrow> length rest < length p" for p a rest
    by (auto simp: parse_atom_def split: list.splits if_splits)
  show ?thesis
    by (relation "measure length") (auto dest: shorter)
qed

text \<open>
  Matching at the start of a string: the length of the match the backtracking search
  finds first, the longer repetition tried before the shorter.
\<close>

fun match_here :: "(atom \<times> quant) list \<Rightarrow> string \<Rightarrow> nat option" where
  "match_here [] s = Some 0"
| "match_here ((a, Once) # p) [] = None"
| "match_here ((a, Once) # p) (c # cs) =
     (if atom_ok a c then map_option Suc (match_here p cs) else None)"
| "match_here ((a, Opt) # p) [] = match_here p []"
| "match_here ((a, Opt) # p) (c # cs) =
     (if atom_ok a c then
        (case match_here p cs of Some n \<Rightarrow> Some (Suc n) | None \<Rightarrow> match_here p (c # cs))
      else match_here p (c # cs))"
| "match_here ((a, Star) # p) [] = match_here p []"
| "match_here ((a, Star) # p) (c # cs) =
     (if atom_ok a c then
        (case match_here ((a, Star) # p) cs of
           Some n \<Rightarrow> Some (Suc n)
         | None \<Rightarrow> match_here p (c # cs))
      else match_here p (c # cs))"
| "match_here ((a, Plus) # p) [] = None"
| "match_here ((a, Plus) # p) (c # cs) =
     (if atom_ok a c then map_option Suc (match_here ((a, Star) # p) cs) else None)"

fun search_from :: "(atom \<times> quant) list \<Rightarrow> string \<Rightarrow> string option" where
  "search_from p [] = (case match_here p [] of Some n \<Rightarrow> Some [] | None \<Rightarrow> None)"
| "search_from p (c # cs) =
     (case match_here p (c # cs) of
        Some n \<Rightarrow> Some (take n (c # cs))
      | None \<Rightarrow> search_from p cs)"

function sub_from :: "(atom \<times> quant) list \<Rightarrow> string \<Rightarrow> string \<Rightarrow> string" where
  "sub_from p repl s =
     (case s of
        [] \<Rightarrow> (case match_here p [] of Some n \<Rightarrow> repl | None \<Rightarrow> [])
      | c # cs \<Rightarrow>
          (case match_here p s of
             None \<Rightarrow> c # sub_from p repl cs
           | Some n \<Rightarrow>
               if n = 0 then repl @ c # sub_from p repl cs
               else repl @ sub_from p repl (drop (n - 1) cs)))"
  by pat_completeness auto
termination
  by (relation "measure (\<lambda>(p, repl, s). length s)") auto

definition re_fragment :: "(atom \<times> quant) list re_module" where
  "re_fragment =
     \<lparr> re_compile = parse_pattern,
       re_search = search_from,
       re_sub = (\<lambda>p repl s. if CHR 0x5C \<in> set repl then Inl RegexError
                           else Inr (sub_from p repl s)) \<rparr>"

section \<open>Facts about the library operations\<close>

subsection \<open>Generators and splitlines\<close>

lemma yield_from_append: "yield_from (xs @ ys) g = yield_from xs (yield_from ys g)"
  by (induction xs) auto

lemma splitlines_LF:
  "splitlines k (LF # cs) = (if k then [LF] else []) # splitlines k cs"
  by simp

lemma splitlines_CRLF:
  "splitlines k (CR # LF # cs) = (if k then [CR, LF] else []) # splitlines k cs"
  by simp

lemma splitlines_CR:
  "cs = [] \<or> hd cs \<noteq> LF \<Longrightarrow> splitlines k (CR # cs) = (if k then [CR] else []) # splitlines k cs"
  by (cases cs) simp_all

lemma splitlines_other:
  "c \<noteq> CR \<Longrightarrow> c \<noteq> LF \<Longrightarrow>
   splitlines k (c # cs) = (case splitlines k cs of [] \<Rightarrow> [[c]] | l # ls \<Rightarrow> (c # l) # ls)"
  by simp

declare splitlines.simps(2) [simp del]

lemma splitlines_nonempty: "s \<noteq> [] \<Longrightarrow> splitlines k s \<noteq> []"
proof (cases s)
  case Nil
  then show "s \<noteq> [] \<Longrightarrow> ?thesis" by simp
next
  case (Cons c cs)
  show ?thesis
  proof (cases "c = LF")
    case True
    then show ?thesis using Cons by (simp add: splitlines_LF)
  next
    case nlf: False
    show ?thesis
    proof (cases "c = CR")
      case True
      then show ?thesis using Cons
        by (cases cs) (simp_all add: splitlines.simps(2))
    next
      case False
      then show ?thesis using Cons nlf
        by (simp add: splitlines_other split: list.splits)
    qed
  qed
qed

lemma splitlines_append_sep:
  "pre \<noteq> [] \<Longrightarrow> last pre = CR \<or> last pre = LF \<Longrightarrow>
   \<not> (last pre = CR \<and> suf \<noteq> [] \<and> hd suf = LF) \<Longrightarrow>
   splitlines k (pre @ suf) = splitlines k pre @ splitlines k suf"
proof (induction k pre rule: splitlines.induct)
  case (1 keepends)
  then show ?case by simp
next
  case (2 k c cs)
  show ?case
  proof (cases "cs = []")
    case True
    show ?thesis
    proof (cases "c = LF")
      case True
      with \<open>cs = []\<close> show ?thesis by (simp add: splitlines_LF)
    next
      case False
      with "2.prems" \<open>cs = []\<close> have c: "c = CR" and s: "suf = [] \<or> hd suf \<noteq> LF" by auto
      show ?thesis using c s \<open>cs = []\<close> by (simp add: splitlines_CR)
    qed
  next
    case ne: False
    then obtain d ds where cs: "cs = d # ds" by (cases cs) auto
    have lastcs: "last (c # cs) = last cs" using ne by simp
    note prem = "2.prems"(2)[unfolded lastcs] "2.prems"(3)[unfolded lastcs]
    show ?thesis
    proof (cases "c = LF")
      case True
      then show ?thesis using "2.IH"(1)[OF True ne prem] by (simp add: splitlines_LF)
    next
      case nlf: False
      show ?thesis
      proof (cases "c = CR")
        case cr: True
        show ?thesis
        proof (cases "d = LF")
          case True
          show ?thesis
          proof (cases "ds = []")
            case True
            then show ?thesis using cr \<open>d = LF\<close> cs by (simp add: splitlines_CRLF)
          next
            case False
            then have "last cs = last ds" using cs by simp
            with prem have p: "last ds = CR \<or> last ds = LF"
              "\<not> (last ds = CR \<and> suf \<noteq> [] \<and> hd suf = LF)" by auto
            show ?thesis using "2.IH"(2)[OF nlf cr cs \<open>d = LF\<close> False p] cr \<open>d = LF\<close> cs
              by (simp add: splitlines_CRLF)
          qed
        next
          case False
          show ?thesis using "2.IH"(3)[OF nlf cr cs False ne prem] cr False cs
            by (simp add: splitlines_CR)
        qed
      next
        case ncr: False
        have ne2: "splitlines k cs \<noteq> []" using ne by (rule splitlines_nonempty)
        show ?thesis using "2.IH"(4)[OF nlf ncr ne prem] nlf ncr ne2
          by (simp add: splitlines_other split: list.splits)
      qed
    qed
  qed
qed

lemma splitlines_append_glue:
  "pre \<noteq> [] \<Longrightarrow> last pre \<noteq> CR \<Longrightarrow> last pre \<noteq> LF \<Longrightarrow> suf \<noteq> [] \<Longrightarrow>
   splitlines k (pre @ suf) =
     butlast (splitlines k pre) @ [last (splitlines k pre) @ hd (splitlines k suf)]
       @ tl (splitlines k suf)"
proof (induction k pre rule: splitlines.induct)
  case (1 keepends)
  then show ?case by simp
next
  case (2 k c cs)
  have nes: "splitlines k suf \<noteq> []" using "2.prems"(4) by (rule splitlines_nonempty)
  show ?case
  proof (cases "cs = []")
    case True
    with "2.prems" have "c \<noteq> CR" "c \<noteq> LF" by auto
    then show ?thesis using True nes
      by (simp add: splitlines_other split: list.splits)
  next
    case ne: False
    then obtain d ds where cs: "cs = d # ds" by (cases cs) auto
    have lastcs: "last (c # cs) = last cs" using ne by simp
    note prem = "2.prems"(2)[unfolded lastcs] "2.prems"(3)[unfolded lastcs] "2.prems"(4)
    have ne2: "splitlines k cs \<noteq> []" using ne by (rule splitlines_nonempty)
    show ?thesis
    proof (cases "c = LF")
      case True
      then show ?thesis using "2.IH"(1)[OF True ne prem] ne2
        by (simp add: splitlines_LF butlast_append)
    next
      case nlf: False
      show ?thesis
      proof (cases "c = CR")
        case cr: True
        show ?thesis
        proof (cases "d = LF")
          case True
          have dsne: "ds \<noteq> []" using prem(2) cs True by auto
          then have "last cs = last ds" using cs by simp
          with prem have p: "last ds \<noteq> CR" "last ds \<noteq> LF" by auto
          have ne3: "splitlines k ds \<noteq> []" using dsne by (rule splitlines_nonempty)
          show ?thesis using "2.IH"(2)[OF nlf cr cs True dsne p "2.prems"(4)] cr True cs ne3
            by (simp add: splitlines_CRLF)
        next
          case False
          show ?thesis using "2.IH"(3)[OF nlf cr cs False ne prem] cr False cs ne2
            by (simp add: splitlines_CR)
        qed
      next
        case ncr: False
        show ?thesis using "2.IH"(4)[OF nlf ncr ne prem] nlf ncr ne2 nes
          by (cases "splitlines k cs"; cases "butlast (splitlines k cs)")
             (auto simp add: splitlines_other split: list.splits if_splits)
      qed
    qed
  qed
qed

subsection \<open>Windows and read\_batch\<close>

lemma startswith_default:
  "startswith b (separators None) \<longleftrightarrow> b \<noteq> [] \<and> (hd b = CR \<or> hd b = LF)"
  by (cases b) (auto simp: startswith_def separators_def)

lemma endswith_default:
  "endswith b (separators None) \<longleftrightarrow> b \<noteq> [] \<and> (last b = CR \<or> last b = LF)"
proof (cases b rule: rev_cases)
  case Nil
  then show ?thesis by (simp add: endswith_def separators_def)
next
  case (snoc ys y)
  then show ?thesis
    by (auto simp: endswith_def separators_def suffix_def)
qed

lemma read_batch_from_end_window:
  assumes "0 < bs" "0 < q" "q \<le> int (length stream)"
  shows "read_batch_from_end stream bs q @ drop (nat q) stream = drop (nat (q - bs)) stream"
    and "read_batch_from_end stream bs q \<noteq> []"
proof -
  show "read_batch_from_end stream bs q @ drop (nat q) stream = drop (nat (q - bs)) stream"
  proof (cases "q > bs")
    case True
    have "nat q = nat (q - bs) + nat bs" using True assms by linarith
    then show ?thesis using True
      by (simp add: read_batch_from_end_def take_add[symmetric] drop_drop[symmetric] add.commute
               del: drop_drop)
  next
    case False
    then show ?thesis by (simp add: read_batch_from_end_def)
  qed
  show "read_batch_from_end stream bs q \<noteq> []"
    using assms by (auto simp: read_batch_from_end_def)
qed

lemma read_batch_while_spec:
  assumes "0 < bs"
  shows "ind = accumulate_sub q bs n \<Longrightarrow> (int n - 1) * bs < q \<Longrightarrow> q \<le> int n * bs \<Longrightarrow>
    q \<le> int (length stream) \<Longrightarrow> result @ tail = drop (nat q) stream \<Longrightarrow> result \<noteq> [] \<Longrightarrow>
    \<exists>q' n'. snd (read_batch_while stream bs seps result ind) = accumulate_sub q' bs n'
      \<and> (int n' - 1) * bs < q' \<and> q' \<le> int n' * bs \<and> q' \<le> int (length stream) \<and> n' \<le> n
      \<and> fst (read_batch_while stream bs seps result ind) @ tail = drop (nat q') stream
      \<and> fst (read_batch_while stream bs seps result ind) \<noteq> []
      \<and> (\<not> startswith (fst (read_batch_while stream bs seps result ind)) seps \<or> n' = 0)"
proof (induction n arbitrary: ind q result)
  case 0
  then show ?case by (intro exI[of _ q] exI[of _ 0]) simp
next
  case (Suc n)
  have ind: "ind = q # accumulate_sub (q - bs) bs n" using Suc.prems(1) by simp
  show ?case
  proof (cases "startswith result seps")
    case False
    then show ?thesis using Suc.prems ind
      by (intro exI[of _ q] exI[of _ "Suc n"]) simp
  next
    case True
    have qpos: "0 < q"
    proof -
      have "0 \<le> int n * bs" using assms by simp
      then show ?thesis using Suc.prems(2) by simp
    qed
    let ?r = "read_batch_from_end stream bs q @ result"
    have w: "read_batch_from_end stream bs q @ drop (nat q) stream = drop (nat (q - bs)) stream"
      using read_batch_from_end_window(1)[OF assms qpos Suc.prems(4)] .
    have a: "(int n - 1) * bs < q - bs" using Suc.prems(2) by (simp add: algebra_simps)
    have b: "q - bs \<le> int n * bs" using Suc.prems(3) by (simp add: algebra_simps)
    have c: "q - bs \<le> int (length stream)" using Suc.prems(4) assms by simp
    have d: "?r @ tail = drop (nat (q - bs)) stream" using Suc.prems(5) w by simp
    have e: "?r \<noteq> []" using Suc.prems(6) by simp
    from Suc.IH[OF refl a b c d e]
    obtain q' n' where
      "snd (read_batch_while stream bs seps ?r (accumulate_sub (q - bs) bs n)) = accumulate_sub q' bs n'"
      "(int n' - 1) * bs < q'" "q' \<le> int n' * bs" "q' \<le> int (length stream)" "n' \<le> n"
      "fst (read_batch_while stream bs seps ?r (accumulate_sub (q - bs) bs n)) @ tail = drop (nat q') stream"
      "fst (read_batch_while stream bs seps ?r (accumulate_sub (q - bs) bs n)) \<noteq> []"
      "\<not> startswith (fst (read_batch_while stream bs seps ?r (accumulate_sub (q - bs) bs n))) seps \<or> n' = 0"
      by blast
    then show ?thesis using True ind
      by (intro exI[of _ q'] exI[of _ n']) simp
  qed
qed







subsection \<open>The loop over the windows\<close>

lemma batches_loop_correct:
  assumes "0 < bs"
  shows "ind = accumulate_sub q bs n \<Longrightarrow> (int n - 1) * bs < q \<Longrightarrow> q \<le> int n * bs \<Longrightarrow>
    q \<le> int (length stream) \<Longrightarrow> splitlines keep (drop (nat q) stream) = segment # rest \<Longrightarrow>
    (0 < n \<longrightarrow> \<not> startswith (drop (nat q) stream) (separators None)) \<Longrightarrow>
    yield_from (rev rest) (batches_loop stream bs None keep segment ind)
      = gen_of_list (rev (splitlines keep stream))"
proof (induction n arbitrary: ind q segment rest rule: less_induct)
  case (less n)
  show ?case
  proof (cases n)
    case 0
    then have "ind = []" "nat q = 0" using less.prems by auto
    then show ?thesis using less.prems(5)
      by (simp add: gen_of_list_def yield_from_append)
  next
    case (Suc m)
    let ?suf = "drop (nat q) stream"
    have ind: "ind = q # accumulate_sub (q - bs) bs m" using less.prems(1) Suc by simp
    have qpos: "0 < q"
    proof -
      have "0 \<le> int m * bs" using assms by simp
      then show ?thesis using less.prems(2) Suc by simp
    qed
    define R where "R = read_batch stream bs (separators None) q (accumulate_sub (q - bs) bs m)"
    define batch where "batch = fst R"
    define ind' where "ind' = snd R"
    have w: "read_batch_from_end stream bs q @ ?suf = drop (nat (q - bs)) stream"
      and wne: "read_batch_from_end stream bs q \<noteq> []"
      using read_batch_from_end_window[OF assms qpos less.prems(4)] by auto
    have a: "(int m - 1) * bs < q - bs" using less.prems(2) Suc by (simp add: algebra_simps)
    have b: "q - bs \<le> int m * bs" using less.prems(3) Suc by (simp add: algebra_simps)
    have c: "q - bs \<le> int (length stream)" using less.prems(4) assms by simp
    from read_batch_while_spec[OF assms refl a b c w wne, of "separators None"]
    obtain q' n' where spec:
      "ind' = accumulate_sub q' bs n'"
      "(int n' - 1) * bs < q'" "q' \<le> int n' * bs" "q' \<le> int (length stream)" "n' \<le> m"
      "batch @ ?suf = drop (nat q') stream"
      "batch \<noteq> []"
      "\<not> startswith batch (separators None) \<or> n' = 0"
      unfolding batch_def ind'_def R_def read_batch_def by blast
    have sufne: "?suf \<noteq> []" using less.prems(5) by auto
    have nostart: "\<not> (?suf \<noteq> [] \<and> hd ?suf = LF)"
      using less.prems(6) Suc by (auto simp add: startswith_default)
    have Lne: "splitlines keep batch \<noteq> []" using spec(7) by (rule splitlines_nonempty)
    have start': "0 < n' \<longrightarrow> \<not> startswith (drop (nat q') stream) (separators None)"
      using spec(8) spec(7) unfolding spec(6)[symmetric] startswith_default by auto
    have n'less: "n' < n" using spec(5) Suc by simp
    show ?thesis
    proof (cases "endswith batch (separators None)")
      case True
      then have "last batch = CR \<or> last batch = LF" by (simp add: endswith_default)
      then have split: "splitlines keep (batch @ ?suf) = splitlines keep batch @ segment # rest"
        using splitlines_append_sep[OF spec(7) _ , of ?suf keep] nostart less.prems(5) by auto
      obtain segment' lines' where L: "splitlines keep batch = segment' # lines'"
        using Lne by (cases "splitlines keep batch") auto
      have s': "splitlines keep (drop (nat q') stream) = segment' # (lines' @ segment # rest)"
        using split L spec(6) by simp
      have IH: "yield_from (rev (lines' @ segment # rest))
                  (batches_loop stream bs None keep segment' ind')
                = gen_of_list (rev (splitlines keep stream))"
        using less.IH[OF n'less spec(1) spec(2) spec(3) spec(4) s' start'] .
      have "batches_loop stream bs None keep segment ind
            = Yield segment (yield_from (rev lines') (batches_loop stream bs None keep segment' ind'))"
        using True L unfolding ind
        by (simp add: lines_splitter_def Let_def R_def[symmetric] batch_def[symmetric]
              ind'_def[symmetric])
      then show ?thesis using IH by (simp add: yield_from_append)
    next
      case False
      then have nl: "last batch \<noteq> CR" "last batch \<noteq> LF"
        using spec(7) by (auto simp: endswith_default)
      have split: "splitlines keep (batch @ ?suf)
                   = butlast (splitlines keep batch) @ [last (splitlines keep batch) @ segment] @ rest"
        using splitlines_append_glue[OF spec(7) nl sufne, of keep] less.prems(5) by simp
      obtain segment' lines' where
        L: "butlast (splitlines keep batch) @ [last (splitlines keep batch) @ segment]
            = segment' # lines'"
        by (cases "butlast (splitlines keep batch) @ [last (splitlines keep batch) @ segment]") auto
      have s': "splitlines keep (drop (nat q') stream) = segment' # (lines' @ rest)"
        using split L spec(6) by simp
      have IH: "yield_from (rev (lines' @ rest))
                  (batches_loop stream bs None keep segment' ind')
                = gen_of_list (rev (splitlines keep stream))"
        using less.IH[OF n'less spec(1) spec(2) spec(3) spec(4) s' start'] .
      obtain l0 ls0 where L0: "splitlines keep batch = l0 # ls0"
        using Lne by (cases "splitlines keep batch") auto
      have "batches_loop stream bs None keep segment ind
            = yield_from (rev lines') (batches_loop stream bs None keep segment' ind')"
        using False L L0 unfolding ind
        by (simp add: lines_splitter_def Let_def R_def[symmetric] batch_def[symmetric]
              ind'_def[symmetric])
      then show ?thesis using IH by (simp add: yield_from_append)
    qed
  qed
qed

subsection \<open>The whole stream, implicit separators\<close>

lemma ceil_division_bounds:
  assumes "0 < bs"
  shows "\<exists>c. ceil_division len bs = Inr c \<and> (c - 1) * bs < len \<and> len \<le> c * bs"
proof -
  let ?d = "(- len) div bs" and ?r = "(- len) mod bs"
  have eq: "bs * ?d = - len - ?r" using mult_div_mod_eq[of bs "- len"] by linarith
  have r: "0 \<le> ?r" "?r < bs" using assms by simp_all
  have e1: "(- ?d - 1) * bs = - (bs * ?d) - bs" and e2: "(- ?d) * bs = - (bs * ?d)"
    by (simp_all add: algebra_simps)
  have "(- ?d - 1) * bs < len" "len \<le> (- ?d) * bs"
    unfolding e1 e2 using eq r by linarith+
  then show ?thesis using assms by (simp add: ceil_division_def)
qed

lemma reverse_binary_stream_windows:
  assumes "0 < bs"
    and "batch_size = Some bs \<or> (batch_size = None \<and> bs = (if stream = [] then 1 else int (length stream)))"
  shows "reverse_binary_stream stream batch_size None keep = gen_of_list (rev (splitlines keep stream))"
proof -
  let ?len = "int (length stream)"
  have eff: "(case batch_size of None \<Rightarrow> (if ?len \<noteq> 0 then ?len else 1) | Some b \<Rightarrow> b) = bs"
    using assms(2) by auto
  obtain c where c: "ceil_division ?len bs = Inr c" "(c - 1) * bs < ?len" "?len \<le> c * bs"
    using ceil_division_bounds[OF assms(1)] by blast
  show ?thesis
  proof (cases "stream = []")
    case True
    have "c = 0"
    proof -
      have "(c - 1) * bs < 0" "0 \<le> c * bs" using c True by simp_all
      then have "c - 1 < 0" "0 \<le> c" using assms(1)
        by (simp_all add: mult_less_0_iff zero_le_mult_iff)
      then show ?thesis by simp
    qed
    then have "remaining_bytes_indicator ?len bs c = Inr []"
      by (simp add: remaining_bytes_indicator_def)
    then have "reverse_binary_stream stream batch_size None keep = Done"
      unfolding reverse_binary_stream_def Let_def eff c(1) by simp
    then show ?thesis using True by (simp add: gen_of_list_def)
  next
    case False
    then have lenpos: "0 < ?len" by simp
    have cpos: "0 < c"
    proof (rule ccontr)
      assume "\<not> 0 < c"
      then have "c * bs \<le> 0" using assms(1) by (simp add: mult_le_0_iff)
      then show False using c(3) lenpos by simp
    qed
    then obtain m where m: "nat c = Suc m" by (cases "nat c") auto
    then have im: "int m = c - 1" by linarith
    define R where "R = read_batch stream bs (separators None) ?len (accumulate_sub (?len - bs) bs m)"
    define batch where "batch = fst R"
    define ind' where "ind' = snd R"
    have w: "read_batch_from_end stream bs ?len @ [] = drop (nat (?len - bs)) stream"
      and wne: "read_batch_from_end stream bs ?len \<noteq> []"
      using read_batch_from_end_window[OF assms(1) lenpos, of stream] by auto
    have a: "(int m - 1) * bs < ?len - bs" unfolding im using c(2) by (simp add: algebra_simps)
    have b: "?len - bs \<le> int m * bs" unfolding im using c(3) by (simp add: algebra_simps)
    have c': "?len - bs \<le> ?len" using assms(1) by simp
    from read_batch_while_spec[OF assms(1) refl a b c' w wne, of "separators None"]
    obtain q' n' where spec:
      "ind' = accumulate_sub q' bs n'"
      "(int n' - 1) * bs < q'" "q' \<le> int n' * bs" "q' \<le> int (length stream)"
      "batch @ [] = drop (nat q') stream"
      "batch \<noteq> []"
      "\<not> startswith batch (separators None) \<or> n' = 0"
      unfolding batch_def ind'_def R_def read_batch_def by blast
    obtain segment lines where L: "splitlines keep batch = segment # lines"
      using splitlines_nonempty[OF spec(6), of keep] by (cases "splitlines keep batch") auto
    have s': "splitlines keep (drop (nat q') stream) = segment # lines"
      using L spec(5) by simp
    have start': "0 < n' \<longrightarrow> \<not> startswith (drop (nat q') stream) (separators None)"
      using spec(7) spec(5) by auto
    have main: "yield_from (rev lines) (batches_loop stream bs None keep segment ind')
                = gen_of_list (rev (splitlines keep stream))"
      using batches_loop_correct[OF assms(1) spec(1) spec(2) spec(3) spec(4) s' start'] .
    have ind: "remaining_bytes_indicator ?len bs c = Inr (?len # accumulate_sub (?len - bs) bs m)"
      using cpos m by (simp add: remaining_bytes_indicator_def)
    have "reverse_binary_stream stream batch_size None keep
          = yield_from (rev lines) (batches_loop stream bs None keep segment ind')"
      unfolding reverse_binary_stream_def Let_def eff c(1)
      using L by (simp add: ind lines_splitter_def R_def[symmetric] batch_def[symmetric]
                     ind'_def[symmetric])
    then show ?thesis using main by simp
  qed
qed

section \<open>The claims\<close>

subsection \<open>C8: the empty source\<close>

text \<open>
  C8. For a source of length 0 the inner stream \<open>reverse_binary_stream\<close> yields nothing
  and raises nothing, for every separator argument, for both values of
  \<open>keep_lines_separator\<close> and for every window size: unspecified, or any integer other
  than 0. (The number of windows is the ceiling of the length divided by the window size,
  so 0 is no window size; \<open>Reverse_File_Reader\<close>, the only caller of the inner stream,
  passes none and the inner stream then takes \<open>stream_size or 1\<close>.) So does
  \<open>Reverse_File_Reader\<close> in its memory-saving mode.
\<close>

theorem C8_empty_source:
  "batch_size \<noteq> Some 0 \<Longrightarrow>
     reverse_binary_stream [] batch_size lines_separator keep = Done
     \<and> Reverse_File_Reader \<lparr>encoding = enc, buffer = []\<rparr> sep keep True = Done"
proof -
  assume nz: "batch_size \<noteq> Some 0"
  have a: "reverse_binary_stream [] bsz ls k = Done" if "bsz \<noteq> Some 0" for bsz ls k
    using that
    by (cases bsz)
       (simp_all add: reverse_binary_stream_def ceil_division_def remaining_bytes_indicator_def)
  have b: "Reverse_File_Reader \<lparr>encoding = enc, buffer = []\<rparr> sep keep True = Done"
    using a[of None None True] by (simp add: Reverse_File_Reader_def reverse_file_def)
  show ?thesis using a[OF nz] b by simp
qed

text \<open>An instance: window size 3, explicit separator \<open>x\<close>.\<close>

theorem C8_empty_source_witness:
  "reverse_binary_stream [] (Some 3) (Some ''x'') False = Done
     \<and> Reverse_File_Reader \<lparr>encoding = ascii, buffer = []\<rparr> [LF] False True = Done"
  using C8_empty_source[of "Some 3" "Some ''x''" False ascii "[LF]"] by simp

subsection \<open>C2: the order property\<close>

text \<open>
  With the implicit separator set (\<open>lines_separator\<close> unspecified) and a window size that
  is unspecified or positive, whatever its relation to the length of the stream or of its
  lines, \<open>reverse_binary_stream\<close> yields exactly the forward line sequence of the stream
  (\<open>splitlines\<close>, terminators kept or dropped as \<open>keep_lines_separator\<close> says) in
  reversed order, and raises nothing.
\<close>

theorem reverse_binary_stream_implicit_order:
  "(case batch_size of None \<Rightarrow> True | Some bs \<Rightarrow> 0 < bs) \<Longrightarrow>
     reverse_binary_stream stream batch_size None keep
       = gen_of_list (rev (splitlines keep stream))"
proof (cases batch_size)
  case None
  assume "case batch_size of None \<Rightarrow> True | Some bs \<Rightarrow> 0 < bs"
  show ?thesis
    by (rule reverse_binary_stream_windows
          [of "if stream = [] then 1 else int (length stream)"])
       (use None in auto)
next
  case (Some bs)
  assume "case batch_size of None \<Rightarrow> True | Some bs \<Rightarrow> 0 < bs"
  then have "0 < bs" using Some by simp
  then show ?thesis using Some by (intro reverse_binary_stream_windows[of bs]) auto
qed

text \<open>
  An instance: three lines ended by CRLF, LF and nothing, read with a window of 2 bytes
  (shorter than the lines) and with one of 100 bytes (longer than the stream).
\<close>

theorem reverse_binary_stream_implicit_order_instance:
  "reverse_binary_stream (''ab'' @ [CR, LF] @ ''cd'' @ [LF] @ ''e'') (Some 2) None True
     = Yield ''e'' (Yield (''cd'' @ [LF]) (Yield (''ab'' @ [CR, LF]) Done))
   \<and> reverse_binary_stream (''ab'' @ [CR, LF] @ ''cd'' @ [LF] @ ''e'') (Some 100) None False
     = Yield ''e'' (Yield ''cd'' (Yield ''ab'' Done))"
  using reverse_binary_stream_implicit_order
          [of "Some 2" "''ab'' @ [CR, LF] @ ''cd'' @ [LF] @ ''e''" True]
    reverse_binary_stream_implicit_order
          [of "Some 100" "''ab'' @ [CR, LF] @ ''cd'' @ [LF] @ ''e''" False]
  by (simp add: gen_of_list_def splitlines.simps(2))


subsection \<open>C3: a separator at a window edge\<close>








subsection \<open>C1: the lines of a text file, reversed\<close>

lemma map_gen_yield_from: "map_gen f (yield_from xs g) = yield_from (map f xs) (map_gen f g)"
  by (induction xs) auto

lemma map_gen_gen_of_list: "map_gen f (gen_of_list xs) = gen_of_list (map f xs)"
  by (simp add: gen_of_list_def map_gen_yield_from)

lemma map_decode_gen_of_list:
  "list_all (\<lambda>l. decode enc l = Inr (d l)) ls \<Longrightarrow>
     map_decode enc (gen_of_list ls) = gen_of_list (map d ls)"
  by (induction ls) (auto simp: gen_of_list_def)

lemma rstrip_snoc_space: "isspace c \<Longrightarrow> rstrip (s @ [c]) = rstrip s"
  by (simp add: rstrip_def)

lemma isspace_CR_LF: "isspace CR" "isspace LF"
  by (simp_all add: isspace_def)

lemma rstrip_universal_newline: "rstrip (universal_newline l) = rstrip l"
proof (cases "suffix [CR, LF] l")
  case True
  then obtain p where "l = p @ [CR, LF]" by (auto simp: suffix_def)
  then have l: "l = (p @ [CR]) @ [LF]" by simp
  show ?thesis using True
    unfolding universal_newline_def l
    by (simp add: butlast_append rstrip_def isspace_CR_LF)
next
  case False
  show ?thesis
  proof (cases "suffix [CR] l")
    case True
    then obtain p where "l = p @ [CR]" by (auto simp: suffix_def)
    then show ?thesis using False True
      by (simp add: universal_newline_def rstrip_def isspace_CR_LF)
  next
    case nc: False
    then show ?thesis using False by (simp add: universal_newline_def)
  qed
qed

text \<open>
  C1 (as amended). Fully consumed with \<open>keep_lines_separator=True\<close>, \<open>Reverse_File_Reader\<close>
  yields the forward lines of the file (cut after each CR, LF or CRLF) in exactly reversed
  order, each one stripped of its trailing whitespace, its terminator included, and ended
  with \<open>lines_separator\<close> instead; no line is lost, added or moved. In the memory-saving
  mode this holds when every line decodes, in the other mode when the whole content
  decodes. The yielded sequence is the reversed forward sequence itself, line contents
  unchanged, exactly when every line already has that form (no trailing blanks, ended by
  \<open>lines_separator\<close>).
\<close>

theorem C1_reversed_lines_normalised:
  "(list_all (\<lambda>l. decode (encoding f) l = Inr (d l)) (splitlines True (buffer f)) \<longrightarrow>
      Reverse_File_Reader f sep True True
        = gen_of_list (map (\<lambda>l. rstrip (d l) @ sep) (rev (splitlines True (buffer f))))
      \<and> (list_all (\<lambda>l. rstrip (d l) @ sep = d l) (splitlines True (buffer f)) \<longrightarrow>
           Reverse_File_Reader f sep True True
             = gen_of_list (rev (map d (splitlines True (buffer f))))))
   \<and> (decode (encoding f) (buffer f) = Inr text \<longrightarrow>
        Reverse_File_Reader f sep True False
          = gen_of_list (map (\<lambda>l. rstrip l @ sep) (rev (splitlines True text))))"
proof (intro conjI impI)
  assume dec: "list_all (\<lambda>l. decode (encoding f) l = Inr (d l)) (splitlines True (buffer f))"
  have rbs: "reverse_binary_stream (buffer f) None None True
             = gen_of_list (rev (splitlines True (buffer f)))"
    by (rule reverse_binary_stream_windows
          [of "if buffer f = [] then 1 else int (length (buffer f))"]) auto
  have dec': "list_all (\<lambda>l. decode (encoding f) l = Inr (d l)) (rev (splitlines True (buffer f)))"
    using dec by (simp add: list_all_iff)
  show main: "Reverse_File_Reader f sep True True
        = gen_of_list (map (\<lambda>l. rstrip (d l) @ sep) (rev (splitlines True (buffer f))))"
    by (simp add: Reverse_File_Reader_def reverse_file_def rbs
          map_decode_gen_of_list[OF dec'] map_gen_gen_of_list o_def)
  assume "list_all (\<lambda>l. rstrip (d l) @ sep = d l) (splitlines True (buffer f))"
  then have eq: "map (\<lambda>l. rstrip (d l) @ sep) (rev (splitlines True (buffer f)))
             = map d (rev (splitlines True (buffer f)))"
    by (intro map_cong) (auto simp: list_all_iff)
  show "Reverse_File_Reader f sep True True
             = gen_of_list (rev (map d (splitlines True (buffer f))))"
    unfolding main eq by (simp add: rev_map)
next
  assume "decode (encoding f) (buffer f) = Inr text"
  then show "Reverse_File_Reader f sep True False
          = gen_of_list (map (\<lambda>l. rstrip l @ sep) (rev (splitlines True text)))"
    by (simp add: Reverse_File_Reader_def readlines_def rev_map[symmetric] o_def
          rstrip_universal_newline)
qed

text \<open>
  C1 as stated fails on the file of two lines, \<open>a\<close> followed by a blank and LF, then
  \<open>b\<close> without a terminator: the blank before the first
  terminator is dropped and the last line gains a terminator, so the reversed output does
  not give the content back. (The copy of the reader in
  \<^verbatim>\<open>src/src/SpiderUtilLib/SpiderUtilLib.py\<close> yields nothing at all: see C4.)
\<close>

theorem C1_trailing_blank_counterexample:
  "Reverse_File_Reader \<lparr>encoding = ascii, buffer = ''a '' @ [LF] @ ''b''\<rparr> [LF] True True
     = Yield (''b'' @ [LF]) (Yield (''a'' @ [LF]) Done)
   \<and> splitlines True (''a '' @ [LF] @ ''b'') = [''a '' @ [LF], ''b'']
   \<and> concat (rev [''b'' @ [LF], ''a'' @ [LF]]) \<noteq> ''a '' @ [LF] @ ''b''
   \<and> reverse_file_reader \<lparr>encoding = ascii, buffer = ''a '' @ [LF] @ ''b''\<rparr> [LF] True True
     = Raise NameError"
  by code_simp

text \<open>
  Instances: a file with trailing blanks and a CRLF, in both modes, and a file already in
  normal form, which comes back line for line.
\<close>

theorem C1_reversed_lines_normalised_witness:
  "Reverse_File_Reader \<lparr>encoding = ascii, buffer = ''a  '' @ [CR, LF] @ ''b'' @ [LF]\<rparr> [LF] True True
     = Yield (''b'' @ [LF]) (Yield (''a'' @ [LF]) Done)
   \<and> Reverse_File_Reader \<lparr>encoding = ascii, buffer = ''a'' @ [LF] @ ''b'' @ [LF]\<rparr> [LF] True True
     = Yield (''b'' @ [LF]) (Yield (''a'' @ [LF]) Done)
   \<and> Reverse_File_Reader \<lparr>encoding = ascii, buffer = ''a  '' @ [CR, LF] @ ''b'' @ [LF]\<rparr> [LF] True False
     = Yield (''b'' @ [LF]) (Yield (''a'' @ [LF]) Done)"
proof -
  let ?f = "\<lparr>encoding = ascii, buffer = ''a  '' @ [CR, LF] @ ''b'' @ [LF]\<rparr>"
  let ?g = "\<lparr>encoding = ascii, buffer = ''a'' @ [LF] @ ''b'' @ [LF]\<rparr>"
  have sf: "splitlines True (buffer ?f) = [''a  '' @ [CR, LF], ''b'' @ [LF]]" by code_simp
  have sg: "splitlines True (buffer ?g) = [''a'' @ [LF], ''b'' @ [LF]]" by code_simp
  have df: "list_all (\<lambda>l. decode (encoding ?f) l = Inr (id l)) (splitlines True (buffer ?f))"
    unfolding sf by (simp add: ascii_def)
  have dg: "list_all (\<lambda>l. decode (encoding ?g) l = Inr (id l)) (splitlines True (buffer ?g))"
    unfolding sg by (simp add: ascii_def)
  have ng: "list_all (\<lambda>l. rstrip (id l) @ [LF] = id l) (splitlines True (buffer ?g))"
    unfolding sg by (simp add: rstrip_def isspace_def)
  have tf: "decode (encoding ?f) (buffer ?f) = Inr (''a  '' @ [CR, LF] @ ''b'' @ [LF])"
    by (simp add: ascii_def)
  have r1: "map (\<lambda>l. rstrip (id l) @ [LF]) (rev (splitlines True (buffer ?f)))
            = [''b'' @ [LF], ''a'' @ [LF]]"
    unfolding sf by (simp add: rstrip_def isspace_def)
  have r3: "map (\<lambda>l. rstrip l @ [LF]) (rev (splitlines True (''a  '' @ [CR, LF] @ ''b'' @ [LF])))
            = [''b'' @ [LF], ''a'' @ [LF]]"
    using r1 by simp
  have a: "Reverse_File_Reader ?f [LF] True True = Yield (''b'' @ [LF]) (Yield (''a'' @ [LF]) Done)"
    using C1_reversed_lines_normalised[of ?f id "[LF]"] df r1 by (simp add: gen_of_list_def)
  have b: "Reverse_File_Reader ?g [LF] True True = Yield (''b'' @ [LF]) (Yield (''a'' @ [LF]) Done)"
    using C1_reversed_lines_normalised[of ?g id "[LF]"] dg ng sg by (simp add: gen_of_list_def)
  have c: "Reverse_File_Reader ?f [LF] True False = Yield (''b'' @ [LF]) (Yield (''a'' @ [LF]) Done)"
    using C1_reversed_lines_normalised[of ?f id "[LF]" "''a  '' @ [CR, LF] @ ''b'' @ [LF]"] tf r3
    by (simp add: gen_of_list_def)
  show ?thesis using a b c by simp
qed

subsection \<open>C4: the reverse reader of the second package\<close>

text \<open>
  C4. In \<^verbatim>\<open>src/src/SpiderUtilLib/FileUtils.py\<close> and \<^verbatim>\<open>src/src/SpiderUtilLib/SpiderUtilLib.py\<close>, for
  every file object and every argument combination, the first pull from
  \<open>reverse_file_reader\<close> raises NameError, whatever the file holds; hence every backward
  call of \<open>text_file_search_all\<close> returns \<open>None\<close>, whatever the file holds and whether
  it exists or not. On an existing file and a non-empty pattern the file is opened, the
  NameError is caught and printed, and \<open>None\<close> is returned.
\<close>

theorem C4_reverse_reader_name_error:
  "reverse_file_reader file_object lines_separator keep save_memory = Raise NameError
   \<and> fst (text_file_search_all re w file search_for enc use_regex False count) = None
   \<and> (search_for \<noteq> [] \<and> files w file = Some content \<longrightarrow>
        text_file_search_all re w file search_for enc use_regex False count
          = (None, print (w\<lparr>open_calls := open_calls w @ [(file, CHR ''r'')]\<rparr>) NameError))"
proof (intro conjI impI)
  show "reverse_file_reader file_object lines_separator keep save_memory = Raise NameError"
    by (simp add: reverse_file_reader_def)
  show "fst (text_file_search_all re w file search_for enc use_regex False count) = None"
    by (cases "files w file")
       (simp_all add: text_file_search_all_def search_all_with_def open_read_def
          line_source_def reverse_file_reader_def)
  assume "search_for \<noteq> [] \<and> files w file = Some content"
  then show "text_file_search_all re w file search_for enc use_regex False count
          = (None, print (w\<lparr>open_calls := open_calls w @ [(file, CHR ''r'')]\<rparr>) NameError)"
    by (simp add: text_file_search_all_def search_all_with_def open_read_def
          line_source_def reverse_file_reader_def)
qed

text \<open>An instance: a one-line file that contains the pattern.\<close>

theorem C4_reverse_reader_name_error_witness:
  "reverse_file_reader \<lparr>encoding = ascii, buffer = ''cat'' @ [LF]\<rparr> [LF] True True
     = Raise NameError
   \<and> fst (text_file_search_all re_fragment
            \<lparr>files = [''f.txt'' \<mapsto> ''cat'' @ [LF]], open_calls = [], printed = []\<rparr>
            ''f.txt'' ''cat'' ascii False False 0) = None
   \<and> text_file_search_all re_fragment
        \<lparr>files = [''f.txt'' \<mapsto> ''cat'' @ [LF]], open_calls = [], printed = []\<rparr>
        ''f.txt'' ''cat'' ascii False False 0
      = (None, \<lparr>files = [''f.txt'' \<mapsto> ''cat'' @ [LF]],
                open_calls = [(''f.txt'', CHR ''r'')], printed = [NameError]\<rparr>)"
  using C4_reverse_reader_name_error
    [of "\<lparr>encoding = ascii, buffer = ''cat'' @ [LF]\<rparr>" "[LF]" True True re_fragment
        "\<lparr>files = [''f.txt'' \<mapsto> ''cat'' @ [LF]], open_calls = [], printed = []\<rparr>"
        "''f.txt''" "''cat''" ascii False 0 "''cat'' @ [LF]"]
  by (simp add: print_def)

subsection \<open>C9: the empty pattern\<close>

text \<open>
  C9. For every file, existent or not, every direction, both regex modes and every count,
  the search called with the empty pattern returns \<open>None\<close> and leaves the world as it
  was: no call of \<open>open\<close> is made, nothing is read and nothing is printed. This holds
  for all copies of the function.
\<close>

theorem C9_empty_pattern:
  "Text_File_Search_All re w file [] enc use_regex front_to_back count = (None, w)
   \<and> text_file_search_all re w file [] enc use_regex front_to_back count = (None, w)"
  by (simp add: Text_File_Search_All_def text_file_search_all_def search_all_with_def)

text \<open>Instances: a file that does not exist, and one whose only line is not empty.\<close>

theorem C9_empty_pattern_witness:
  "Text_File_Search_All re_fragment \<lparr>files = Map.empty, open_calls = [], printed = []\<rparr>
     ''missing.txt'' [] ascii True False 0
     = (None, \<lparr>files = Map.empty, open_calls = [], printed = []\<rparr>)
   \<and> Text_File_Search_All re_fragment
       \<lparr>files = [''f.txt'' \<mapsto> ''cat'' @ [LF]], open_calls = [], printed = []\<rparr>
       ''f.txt'' [] ascii False True 0
     = (None, \<lparr>files = [''f.txt'' \<mapsto> ''cat'' @ [LF]], open_calls = [], printed = []\<rparr>)"
  using C9_empty_pattern
    [of re_fragment "\<lparr>files = Map.empty, open_calls = [], printed = []\<rparr>"
        "''missing.txt''" ascii True False 0]
    C9_empty_pattern
    [of re_fragment "\<lparr>files = [''f.txt'' \<mapsto> ''cat'' @ [LF]], open_calls = [], printed = []\<rparr>"
        "''f.txt''" ascii False True 0]
  by simp

subsection \<open>C5: failure and absence\<close>






subsection \<open>C6: the bound on the number of matches\<close>


lemma search_loop_Yield_stop:
  "search_line re pat use_regex acc l = Inr r \<Longrightarrow> 0 < count \<Longrightarrow> count = int (length r) \<Longrightarrow>
     search_loop re pat use_regex count acc (Yield l g) = (Inr r, g)"
  by simp

lemma search_loop_Yield_go:
  "search_line re pat use_regex acc l = Inr r \<Longrightarrow> \<not> (0 < count \<and> count = int (length r)) \<Longrightarrow>
     search_loop re pat use_regex count acc (Yield l g)
       = search_loop re pat use_regex count r g"
  by auto












subsection \<open>C7: what a match records\<close>

lemma search_loop_literal_records:
  "fst (search_loop re pat False count acc g) = Inr ms \<Longrightarrow> set acc \<subseteq> {pat} \<Longrightarrow>
     set ms \<subseteq> {pat}"
proof (induction g arbitrary: acc)
  case Done
  then show ?case by simp
next
  case (Raise e)
  then show ?case by simp
next
  case (Yield l g)
  define r where "r = (if str_find l pat \<noteq> - 1 then acc @ [pat] else acc)"
  have r: "search_line re pat False acc l = Inr r"
    by (simp add: search_line_def r_def)
  have sub: "set r \<subseteq> {pat}" using Yield.prems(2) by (simp add: r_def)
  show ?case
  proof (cases "0 < count \<and> count = int (length r)")
    case True
    have "search_loop re pat False count acc (Yield l g) = (Inr r, g)"
      using search_loop_Yield_stop[OF r] True by blast
    then show ?thesis using Yield.prems(1) sub by simp
  next
    case False
    have "search_loop re pat False count acc (Yield l g) = search_loop re pat False count r g"
      using search_loop_Yield_go[OF r False] .
    then have "fst (search_loop re pat False count r g) = Inr ms" using Yield.prems(1) by simp
    from Yield.IH[OF this sub] show ?thesis .
  qed
qed

lemma str_find_ge: "- 1 \<le> str_find l p"
  by (induction l) (auto simp: Let_def)

lemma str_find_sublist: "str_find l p \<noteq> - 1 \<longleftrightarrow> sublist p l"
proof (induction l)
  case Nil
  then show ?case by simp
next
  case (Cons c cs)
  have ge: "- 1 \<le> str_find cs p" by (rule str_find_ge)
  show ?case
  proof (cases "prefix p (c # cs)")
    case True
    then show ?thesis by (auto simp: sublist_Cons_right)
  next
    case False
    have "str_find (c # cs) p \<noteq> - 1 \<longleftrightarrow> str_find cs p \<noteq> - 1"
      using False ge by (simp add: Let_def)
    then show ?thesis using Cons.IH False by (simp add: sublist_Cons_right)
  qed
qed

lemma search_loop_literal_all:
  "search_loop re pat False 0 acc (gen_of_list ls)
     = (Inr (acc @ replicate (length (filter (sublist pat) ls)) pat), Done)"
  by (induction ls arbitrary: acc)
     (auto simp: gen_of_list_def search_line_def str_find_sublist[symmetric])

lemma search_loop_regex_all:
  "re_compile re pat = Inr r \<Longrightarrow>
     search_loop re pat True 0 acc (gen_of_list ls)
       = (Inr (acc @ List.map_filter (re_search re r) ls), Done)"
  by (induction ls arbitrary: acc)
     (auto simp: gen_of_list_def search_line_def List.map_filter_simps split: option.splits)

lemma search_all_literal_records:
  assumes "fst (search_all_with reader re w file pat enc False front_to_back count) = Some ms"
  shows "ms = replicate (length ms) pat"
proof -
  from assms obtain content where
    "fst (search_loop re pat False count []
            (line_source reader \<lparr>encoding = enc, buffer = content\<rparr> front_to_back)) = Inr ms"
    by (auto simp: search_all_with_def open_read_def Let_def
             split: if_splits option.splits sum.splits)
  then have "set ms \<subseteq> {pat}" by (rule search_loop_literal_records) simp
  then show ?thesis by (intro replicate_eqI) auto
qed

lemma digits_pattern:
  "re_compile re_fragment [CHR 0x5C, CHR ''d'', CHR ''+''] = Inr [(ADigit, Plus)]"
  by code_simp

lemma digits_search:
  "re_search re_fragment [(ADigit, Plus)] (''id=42 qty=7'' @ tail) = Some ''42''"
  by (simp add: re_fragment_def is_digit_def)


lemma one_line_source:
  "line_source Reverse_File_Reader
     \<lparr>encoding = ascii, buffer = ''id=42 qty=7'' @ [LF]\<rparr> front_to_back
   = Yield (''id=42 qty=7'' @ [LF]) Done"
proof (cases front_to_back)
  case True
  have "line_source Reverse_File_Reader
          \<lparr>encoding = ascii, buffer = ''id=42 qty=7'' @ [LF]\<rparr> True
        = Yield (''id=42 qty=7'' @ [LF]) Done"
    by code_simp
  then show ?thesis using True by simp
next
  case False
  have "line_source Reverse_File_Reader
          \<lparr>encoding = ascii, buffer = ''id=42 qty=7'' @ [LF]\<rparr> False
        = Yield (''id=42 qty=7'' @ [LF]) Done"
    by code_simp
  then show ?thesis using False by simp
qed

lemma one_line_scan:
  "fst (search_loop re_fragment [CHR 0x5C, CHR ''d'', CHR ''+''] True count []
          (Yield (''id=42 qty=7'' @ [LF]) Done)) = Inr [''42'']"
proof -
  have line: "search_line re_fragment [CHR 0x5C, CHR ''d'', CHR ''+''] True [] (''id=42 qty=7'' @ [LF])
              = Inr [''42'']"
    by code_simp
  show ?thesis
  proof (cases "0 < count \<and> count = int (length [''42''])")
    case True
    show ?thesis using search_loop_Yield_stop[OF line] True by simp
  next
    case False
    show ?thesis using search_loop_Yield_go[OF line False, of Done] by simp
  qed
qed

text \<open>
  C7. In literal mode every recorded match is the search pattern itself, and a scan
  without a count limit records it once for each visited line that contains the pattern
  as a substring, however often the line contains it. In regex mode the scan records, for
  each visited line that matches, what \<open>re.search\<close> finds in it: the first match. With
  the pattern \<^verbatim>\<open>\d+\<close> (compiled by the fragment of \<open>re\<close> modelled above) the line
  \<open>id=42 qty=7\<close> records \<open>42\<close>, not \<open>7\<close>, in both directions and for every count.
\<close>

theorem C7_recorded_matches:
  "(fst (Text_File_Search_All re w file pat enc False front_to_back count) = Some ms
      \<longrightarrow> ms = replicate (length ms) pat)
   \<and> search_loop re pat False 0 [] (gen_of_list ls)
       = (Inr (replicate (length (filter (sublist pat) ls)) pat), Done)
   \<and> (re_compile re pat = Inr r
        \<longrightarrow> search_loop re pat True 0 [] (gen_of_list ls)
              = (Inr (List.map_filter (re_search re r) ls), Done))
   \<and> re_compile re_fragment [CHR 0x5C, CHR ''d'', CHR ''+''] = Inr [(ADigit, Plus)]
   \<and> re_search re_fragment [(ADigit, Plus)] ''id=42 qty=7'' = Some ''42''
   \<and> (files w file = Some (''id=42 qty=7'' @ [LF])
        \<longrightarrow> Text_File_Search_All re_fragment w file [CHR 0x5C, CHR ''d'', CHR ''+''] ascii True front_to_back count
              = (Some [''42''], w\<lparr>open_calls := open_calls w @ [(file, CHR ''r'')]\<rparr>))"
proof (intro conjI impI)
  assume "fst (Text_File_Search_All re w file pat enc False front_to_back count) = Some ms"
  then show "ms = replicate (length ms) pat"
    unfolding Text_File_Search_All_def by (rule search_all_literal_records)
next
  show "search_loop re pat False 0 [] (gen_of_list ls)
       = (Inr (replicate (length (filter (sublist pat) ls)) pat), Done)"
    using search_loop_literal_all[of re pat "[]" ls] by simp
next
  assume "re_compile re pat = Inr r"
  then show "search_loop re pat True 0 [] (gen_of_list ls)
              = (Inr (List.map_filter (re_search re r) ls), Done)"
    using search_loop_regex_all[of re pat r "[]" ls] by simp
next
  show "re_compile re_fragment [CHR 0x5C, CHR ''d'', CHR ''+''] = Inr [(ADigit, Plus)]"
    by (rule digits_pattern)
next
  show "re_search re_fragment [(ADigit, Plus)] ''id=42 qty=7'' = Some ''42''"
    using digits_search[of "[]"] by simp
next
  define content where "content = ''id=42 qty=7'' @ [LF]"
  assume "files w file = Some (''id=42 qty=7'' @ [LF])"
  then have f: "files w file = Some content" by (simp only: content_def)
  have src: "fst (search_loop re_fragment [CHR 0x5C, CHR ''d'', CHR ''+''] True count []
               (line_source Reverse_File_Reader \<lparr>encoding = ascii, buffer = content\<rparr>
                  front_to_back)) = Inr [''42'']"
    unfolding content_def by (simp only: one_line_source one_line_scan)
  show "Text_File_Search_All re_fragment w file [CHR 0x5C, CHR ''d'', CHR ''+''] ascii True front_to_back count
              = (Some [''42''], w\<lparr>open_calls := open_calls w @ [(file, CHR ''r'')]\<rparr>)"
    using f src
    by (simp add: Text_File_Search_All_def search_all_with_def open_read_def)
qed

text \<open>
  Instances: the one-line file searched backward, three lines searched by regex (the
  first does not match), three lines searched literally (the first holds the pattern
  twice and is recorded once).
\<close>

theorem C7_recorded_matches_witness:
  "Text_File_Search_All re_fragment
     \<lparr>files = [''f.txt'' \<mapsto> ''id=42 qty=7'' @ [LF]], open_calls = [], printed = []\<rparr>
     ''f.txt'' [CHR 0x5C, CHR ''d'', CHR ''+''] ascii True False 0
     = (Some [''42''],
        \<lparr>files = [''f.txt'' \<mapsto> ''id=42 qty=7'' @ [LF]], open_calls = [], printed = []\<rparr>
          \<lparr>open_calls := [(''f.txt'', CHR ''r'')]\<rparr>)
   \<and> search_loop re_fragment [CHR 0x5C, CHR ''d'', CHR ''+''] True 0 []
       (gen_of_list [''no digits'', ''id=42 qty=7'', ''x9''])
     = (Inr [''42'', ''9''], Done)
   \<and> search_loop re_fragment ''cat'' False 0 []
       (gen_of_list [''a cat and a cat'', ''dog'', ''cat''])
     = (Inr [''cat'', ''cat''], Done)"
proof -
  let ?w = "\<lparr>files = [''f.txt'' \<mapsto> ''id=42 qty=7'' @ [LF]], open_calls = [], printed = []\<rparr>"
  note inst = C7_recorded_matches
    [of re_fragment ?w "''f.txt''" "''cat''" ascii False 0 "[''cat'', ''cat'']"
        "[''a cat and a cat'', ''dog'', ''cat'']"]
  note inst2 = C7_recorded_matches
    [of re_fragment ?w "''f.txt''" "[CHR 0x5C, CHR ''d'', CHR ''+'']" ascii False 0 "[]"
        "[''no digits'', ''id=42 qty=7'', ''x9'']" "[(ADigit, Plus)]"]
  have fl: "files ?w ''f.txt'' = Some (''id=42 qty=7'' @ [LF])" by simp
  have a: "Text_File_Search_All re_fragment ?w ''f.txt'' [CHR 0x5C, CHR ''d'', CHR ''+''] ascii True False 0
           = (Some [''42''], ?w\<lparr>open_calls := open_calls ?w @ [(''f.txt'', CHR ''r'')]\<rparr>)"
    using inst fl by blast
  have cp: "re_compile re_fragment [CHR 0x5C, CHR ''d'', CHR ''+''] = Inr [(ADigit, Plus)]" using inst by blast
  have mf: "List.map_filter (re_search re_fragment [(ADigit, Plus)])
              [''no digits'', ''id=42 qty=7'', ''x9''] = [''42'', ''9'']"
    by code_simp
  have b: "search_loop re_fragment [CHR 0x5C, CHR ''d'', CHR ''+''] True 0 []
             (gen_of_list [''no digits'', ''id=42 qty=7'', ''x9'']) = (Inr [''42'', ''9''], Done)"
    using inst2 cp mf by simp
  have fi: "replicate (length (filter (sublist ''cat'')
              [''a cat and a cat'', ''dog'', ''cat''])) ''cat'' = [''cat'', ''cat'']"
    by code_simp
  have c: "search_loop re_fragment ''cat'' False 0 []
             (gen_of_list [''a cat and a cat'', ''dog'', ''cat'']) = (Inr [''cat'', ''cat''], Done)"
    using inst fi by simp
  show ?thesis using a b c by simp
qed

subsection \<open>C10: the cleanup that always reports failure\<close>









end
